theory Spec2Isabelle
  imports Complex_Main "HOL-Library.Log_Nat"
begin

section \<open>Strings of code points\<close>

text \<open>
  A Python \<open>str\<close> is a sequence of Unicode code points. A code point is a natural
  number here and a string a list of them, so that \<open>length\<close> counts what \<open>len\<close>
  counts. An ASCII literal of the source is written \<open>str ''...''\<close>.
\<close>

type_synonym pystr = "nat list"

definition str :: "string \<Rightarrow> pystr" where
  "str s = map of_char s"

text \<open>
  The characters that \<open>str.split()\<close> (without argument) and \<open>str.strip()\<close> treat as
  whitespace: the code points for which \<open>str.isspace\<close> holds.
\<close>

definition is_space :: "nat \<Rightarrow> bool" where
  "is_space c \<longleftrightarrow>
     (9 \<le> c \<and> c \<le> 13) \<or> (28 \<le> c \<and> c \<le> 32) \<or> c = 133 \<or> c = 160 \<or> c = 5760 \<or>
     (8192 \<le> c \<and> c \<le> 8202) \<or> c = 8232 \<or> c = 8233 \<or> c = 8239 \<or> c = 8287 \<or>
     c = 12288"

text \<open>
  \<open>text.split()\<close>: the maximal runs of non-whitespace characters, in order. The
  first argument is the word being read.
\<close>

fun split_from :: "pystr \<Rightarrow> pystr \<Rightarrow> pystr list" where
  "split_from w [] = (if w = [] then [] else [w])"
| "split_from w (c # cs) =
     (if is_space c then (if w = [] then split_from [] cs else w # split_from [] cs)
      else split_from (w @ [c]) cs)"

definition split :: "pystr \<Rightarrow> pystr list" where
  "split s = split_from [] s"

text \<open>\<open>text.strip()\<close>: leading and trailing whitespace removed.\<close>

definition strip :: "pystr \<Rightarrow> pystr" where
  "strip s = rev (dropWhile is_space (rev (dropWhile is_space s)))"

text \<open>\<open>sep.join(lines)\<close>.\<close>

fun join :: "pystr \<Rightarrow> pystr list \<Rightarrow> pystr" where
  "join sep [] = []"
| "join sep [l] = l"
| "join sep (l # ls) = l @ sep @ join sep ls"

text \<open>
  The decimal digits of a number, zero-padded to a fixed width, as \<open>strftime\<close> prints
  the month, day, hour and minute of a date (\<open>%m %d %H %M\<close>, on two digits).
\<close>

fun digits :: "nat \<Rightarrow> nat \<Rightarrow> pystr" where
  "digits 0 n = []"
| "digits (Suc k) n = digits k (n div 10) @ [48 + n mod 10]"

text \<open>
  The decimal digits of a number without padding, as \<open>strftime\<close> prints the year
  (\<open>%Y\<close>): CPython hands the directive to the C library, and glibc prints the year as a
  plain decimal number, \<open>999\<close> for the year 999.
\<close>

fun decimal :: "nat \<Rightarrow> pystr" where
  "decimal n = (if n < 10 then [48 + n] else decimal (n div 10) @ [48 + n mod 10])"

declare decimal.simps [simp del]

text \<open>
  The characters at which a text breaks into lines (those of \<open>str.splitlines\<close>), the
  newline that \<open>format_for_llm\<close> joins with among them, and the lines of a text: the
  runs between two such characters. The empty text has no line.
\<close>

definition is_line_break :: "nat \<Rightarrow> bool" where
  "is_line_break c \<longleftrightarrow>
     (10 \<le> c \<and> c \<le> 13) \<or> (28 \<le> c \<and> c \<le> 30) \<or> c = 133 \<or> c = 8232 \<or> c = 8233"

fun lines_from :: "pystr \<Rightarrow> pystr \<Rightarrow> pystr list" where
  "lines_from l [] = [l]"
| "lines_from l (c # cs) =
     (if is_line_break c then l # lines_from [] cs else lines_from (l @ [c]) cs)"

definition text_lines :: "pystr \<Rightarrow> pystr list" where
  "text_lines s = (if s = [] then [] else lines_from [] s)"

section \<open>Double-precision numbers\<close>

text \<open>
  A Python \<open>float\<close> is an IEEE 754 double. The pair \<open>(m, e)\<close> stands for the double
  of value \<open>m * 2 ^ e\<close>. The operations below round to the nearest double, ties to the
  even significand, on 53 bits; they cover the normal range (magnitudes from
  \<open>2 ^ -1022\<close> up to \<open>2 ^ 1024\<close>), which the token counts of the chunker never leave:
  there is no overflow, infinity or subnormal number in this model.
\<close>

type_synonym double = "int \<times> int"

definition double_value :: "double \<Rightarrow> rat" where
  "double_value x = of_int (fst x) * 2 powi (snd x)"

text \<open>The integer nearest to \<open>n / d\<close> for \<open>d > 0\<close>, a tie going to the even one.\<close>

definition round_half_even :: "int \<Rightarrow> int \<Rightarrow> int" where
  "round_half_even n d =
     (let q = n div d; r = n mod d
      in if 2 * r < d then q else if 2 * r > d then q + 1 else if even q then q else q + 1)"

text \<open>\<open>\<lfloor>log\<^sub>2 (a / b)\<rfloor>\<close> for positive \<open>a\<close> and \<open>b\<close>.\<close>

definition floor_log2 :: "int \<Rightarrow> int \<Rightarrow> int" where
  "floor_log2 a b =
     (let k = bitlen a - bitlen b
      in if b * 2 ^ nat k \<le> a * 2 ^ nat (- k) then k else k - 1)"

text \<open>The double nearest to the fraction \<open>a / b\<close>, for \<open>b > 0\<close>.\<close>

definition nearest_double :: "int \<Rightarrow> int \<Rightarrow> double" where
  "nearest_double a b =
     (if a = 0 then (0, 0)
      else let e = floor_log2 \<bar>a\<bar> b - 52;
               m = round_half_even (\<bar>a\<bar> * 2 ^ nat (- e)) (b * 2 ^ nat e)
           in (sgn a * m, e))"

text \<open>\<open>float(n)\<close> of an integer, as the operand of a mixed product.\<close>

definition double_of_int :: "int \<Rightarrow> double" where
  "double_of_int n = nearest_double n 1"

text \<open>\<open>x * y\<close> on doubles: the double nearest to the exact product.\<close>

definition double_mul :: "double \<Rightarrow> double \<Rightarrow> double" where
  "double_mul x y =
     (let m = fst x * fst y; e = snd x + snd y
      in nearest_double (m * 2 ^ nat e) (2 ^ nat (- e)))"

text \<open>\<open>int(x)\<close>: truncation towards zero.\<close>

definition int_of_double :: "double \<Rightarrow> int" where
  "int_of_double x = sgn (fst x) * ((\<bar>fst x\<bar> * 2 ^ nat (snd x)) div 2 ^ nat (- snd x))"

datatype error = KeyError | ZeroDivisionError

text \<open>
  \<open>a / b\<close> on integers: Python returns the double nearest to the exact quotient, and
  raises for a zero divisor.
\<close>

definition true_div :: "int \<Rightarrow> int \<Rightarrow> error + double" where
  "true_div a b =
     (if b = 0 then Inl ZeroDivisionError else Inr (nearest_double (a * sgn b) \<bar>b\<bar>))"

text \<open>
  \<open>round(x, 1)\<close>: the exact value of \<open>x\<close> is rounded to the nearest decimal with one
  digit after the point, a tie going to the even digit, and that decimal is converted
  back to the nearest double.
\<close>

definition round1 :: "double \<Rightarrow> double" where
  "round1 x =
     nearest_double (round_half_even (10 * fst x * 2 ^ nat (snd x)) (2 ^ nat (- snd x))) 10"

section \<open>Message records\<close>

text \<open>
  A message is a row dictionary of the query layer. The chunker reads four keys of it
  with \<open>msg.get(key)\<close>, which gives \<open>None\<close> both for a missing key and for a stored
  \<open>None\<close>: each of these fields is an option. \<open>message_id\<close> stands for the keys the
  chunker never reads.

  \<open>created_at\<close> is a \<open>datetime\<close>, of which the renderer prints year, month, day, hour
  and minute, or a text, which the renderer prints as it is.
\<close>

datatype timestamp =
  Datetime (year: nat) (month: nat) (day: nat) (hour: nat) (minute: nat)
| TsText pystr

record message =
  message_id :: int
  author :: "pystr option"
  current_username :: "pystr option"
  content :: "pystr option"
  created_at :: "timestamp option"

text \<open>
  \<open>value or default\<close> on an optional text: the value when it is truthy (present, not
  \<open>None\<close>, not the empty string), the default otherwise.
\<close>

definition or_else :: "pystr option \<Rightarrow> pystr \<Rightarrow> pystr" where
  "or_else v d = (case v of None \<Rightarrow> d | Some s \<Rightarrow> if s \<noteq> [] then s else d)"

text \<open>
  The truth value of \<open>msg.get("created_at")\<close>: a \<open>datetime\<close> is always true, a text
  when it is not empty, \<open>None\<close> never.
\<close>

fun truthy :: "timestamp option \<Rightarrow> bool" where
  "truthy None = False"
| "truthy (Some (Datetime y mo d h mi)) = True"
| "truthy (Some (TsText s)) = (s \<noteq> [])"

text \<open>\<open>ts.strftime("%Y-%m-%d %H:%M") if isinstance(ts, datetime) else str(ts)\<close>.\<close>

fun ts_str :: "timestamp \<Rightarrow> pystr" where
  "ts_str (Datetime y mo d h mi) =
     decimal y @ str ''-'' @ digits 2 mo @ str ''-'' @ digits 2 d @ str '' '' @
     digits 2 h @ str '':'' @ digits 2 mi"
| "ts_str (TsText s) = s"

section \<open>SmartChunker\<close>

definition DEFAULT_MAX_TOKENS :: int where
  "DEFAULT_MAX_TOKENS = 8000"

text \<open>The literal \<open>1.3\<close>: the double nearest to \<open>13/10\<close>.\<close>

definition TOKENS_PER_WORD :: double where
  "TOKENS_PER_WORD = nearest_double 13 10"

definition estimate_tokens :: "pystr \<Rightarrow> int" where
  "estimate_tokens s =
     (if s = [] then 0
      else max 1 (int_of_double
                    (double_mul (double_of_int (int (length (split s)))) TOKENS_PER_WORD)))"

text \<open>\<open>cls.estimate_tokens(msg.get("content") or "")\<close>.\<close>

definition msg_tokens :: "message \<Rightarrow> int" where
  "msg_tokens msg = estimate_tokens (or_else (content msg) [])"

text \<open>
  The loop of \<open>chunk_messages\<close>. Its state is the three local variables \<open>chunks\<close>,
  \<open>current_chunk\<close> and \<open>current_tokens\<close>.
\<close>

fun chunk_loop ::
  "int \<Rightarrow> message list list \<times> message list \<times> int \<Rightarrow> message list \<Rightarrow>
   message list list \<times> message list \<times> int" where
  "chunk_loop max_tokens st [] = st"
| "chunk_loop max_tokens (chunks, current_chunk, current_tokens) (msg # rest) =
     (if current_tokens + msg_tokens msg > max_tokens \<and> current_chunk \<noteq> []
      then chunk_loop max_tokens (chunks @ [current_chunk], [msg], msg_tokens msg) rest
      else chunk_loop max_tokens
             (chunks, current_chunk @ [msg], current_tokens + msg_tokens msg) rest)"

definition chunk_messages :: "message list \<Rightarrow> int \<Rightarrow> message list list" where
  "chunk_messages messages max_tokens =
     (if messages = [] then []
      else case chunk_loop max_tokens ([], [], 0) messages of
             (chunks, current_chunk, current_tokens) \<Rightarrow>
               if current_chunk \<noteq> [] then chunks @ [current_chunk] else chunks)"

text \<open>
  The outcome of a call of \<open>chunk_messages\<close>: the source has no \<open>raise\<close> in it and no
  check of \<open>max_tokens\<close>, so the call returns for every budget.
\<close>

definition chunk_messages_call :: "message list \<Rightarrow> int \<Rightarrow> error + message list list" where
  "chunk_messages_call messages max_tokens = Inr (chunk_messages messages max_tokens)"

text \<open>
  The loop of \<open>format_for_llm\<close>, with the list \<open>lines\<close> as its state. The subscript
  \<open>msg["created_at"]\<close> raises \<open>KeyError\<close> on a missing key; the test before it lets it
  be read only where \<open>msg.get("created_at")\<close> is true.
\<close>

fun format_loop :: "bool \<Rightarrow> pystr list \<Rightarrow> message list \<Rightarrow> error + pystr list" where
  "format_loop include_timestamps lines [] = Inr lines"
| "format_loop include_timestamps lines (msg # rest) =
     (let author = or_else (author msg) (or_else (current_username msg) (str ''unknown''));
          content = strip (or_else (content msg) [])
      in if content = [] then format_loop include_timestamps lines rest
         else if include_timestamps \<and> truthy (created_at msg) then
           (case created_at msg of
              None \<Rightarrow> Inl KeyError
            | Some ts \<Rightarrow>
                format_loop include_timestamps
                  (lines @ [str ''['' @ ts_str ts @ str ''] '' @ author @ str '': '' @ content])
                  rest)
         else format_loop include_timestamps (lines @ [author @ str '': '' @ content]) rest)"

definition format_for_llm :: "message list \<Rightarrow> bool \<Rightarrow> error + pystr" where
  "format_for_llm messages include_timestamps =
     (case format_loop include_timestamps [] messages of
        Inl e \<Rightarrow> Inl e
      | Inr lines \<Rightarrow> Inr (join (str [CHR 0x0A]) lines))"

text \<open>
  The dictionary returned by \<open>stats\<close>. The average is a double (the integer \<open>0\<close> for
  an empty input); the field holds its value.
\<close>

record stats_result =
  total_messages :: int
  total_tokens :: int
  estimated_chunks :: int
  avg_tokens_per_message :: rat

definition stats :: "message list \<Rightarrow> error + stats_result" where
  "stats messages =
     (if messages = [] then
        Inr \<lparr>total_messages = 0, total_tokens = 0, estimated_chunks = 0,
             avg_tokens_per_message = 0\<rparr>
      else
        let total_tokens = sum_list (map msg_tokens messages);
            estimated_chunks = max 1 (- ((- total_tokens) div DEFAULT_MAX_TOKENS))
        in case true_div total_tokens (int (length messages)) of
             Inl e \<Rightarrow> Inl e
           | Inr average \<Rightarrow>
               Inr \<lparr>total_messages = int (length messages), total_tokens = total_tokens,
                    estimated_chunks = estimated_chunks,
                    avg_tokens_per_message = double_value (round1 average)\<rparr>)"

section \<open>The specification's wording\<close>

subsection \<open>The greedy algorithm\<close>

text \<open>
  Scan the records once with a running chunk and a running total. A record that would
  push the total over the budget while the running chunk is non-empty closes the running
  chunk, which is emitted, and starts the next one; any other record joins the running
  chunk. The last running chunk is emitted if it is non-empty.
\<close>

fun greedy :: "int \<Rightarrow> message list \<Rightarrow> int \<Rightarrow> message list \<Rightarrow> message list list" where
  "greedy budget running running_total [] = (if running = [] then [] else [running])"
| "greedy budget running running_total (r # rs) =
     (if running_total + msg_tokens r > budget \<and> running \<noteq> []
      then running # greedy budget [r] (msg_tokens r) rs
      else greedy budget (running @ [r]) (running_total + msg_tokens r) rs)"

definition greedy_chunks :: "message list \<Rightarrow> int \<Rightarrow> message list list" where
  "greedy_chunks records budget = greedy budget [] 0 records"

text \<open>The token count of a chunk: the sum of the estimates of its records.\<close>

definition chunk_tokens :: "message list \<Rightarrow> int" where
  "chunk_tokens chunk = sum_list (map msg_tokens chunk)"

subsection \<open>The rendered text\<close>

text \<open>The trimmed content of a record; a missing content counts as empty.\<close>

definition trimmed_content :: "message \<Rightarrow> pystr" where
  "trimmed_content m = strip (case content m of None \<Rightarrow> [] | Some c \<Rightarrow> c)"

text \<open>A text field that is there: neither absent (\<open>None\<close>) nor empty.\<close>

fun present :: "pystr option \<Rightarrow> pystr option" where
  "present None = None"
| "present (Some s) = (if s = [] then None else Some s)"

text \<open>
  The author of a line: the display name; the secondary username when the display name
  is absent or empty; the literal \<open>unknown\<close> when both are.
\<close>

definition resolved_author :: "message \<Rightarrow> pystr" where
  "resolved_author m =
     (case present (author m) of
        Some display_name \<Rightarrow> display_name
      | None \<Rightarrow>
          (case present (current_username m) of
             Some username \<Rightarrow> username
           | None \<Rightarrow> str ''unknown''))"

text \<open>
  The timestamp a line shows, if the record has one: a \<open>datetime\<close> as
  \<open>YYYY-MM-DD HH:MM\<close>, the year in decimal (four digits from the year 1000 on) and the
  other fields on two digits; a non-empty text as it is.
\<close>

fun stamp :: "timestamp option \<Rightarrow> pystr option" where
  "stamp None = None"
| "stamp (Some (Datetime y mo d h mi)) =
     Some (decimal y @ str ''-'' @ digits 2 mo @ str ''-'' @ digits 2 d @ str '' '' @
           digits 2 h @ str '':'' @ digits 2 mi)"
| "stamp (Some (TsText s)) = present (Some s)"

text \<open>
  A record that fits on one line: no line-break character in its trimmed content, in
  its author or in a timestamp stored as text.
\<close>

definition on_one_line :: "message \<Rightarrow> bool" where
  "on_one_line m \<longleftrightarrow>
     (\<forall>c \<in> set (trimmed_content m). \<not> is_line_break c) \<and>
     (\<forall>c \<in> set (resolved_author m). \<not> is_line_break c) \<and>
     (case created_at m of
        Some (TsText s) \<Rightarrow> \<forall>c \<in> set s. \<not> is_line_break c
      | _ \<Rightarrow> True)"

text \<open>
  The line of a record: \<open>[timestamp] author: content\<close> when timestamps are asked for
  and the record has one, \<open>author: content\<close> otherwise.
\<close>

definition rendered_line :: "bool \<Rightarrow> message \<Rightarrow> pystr" where
  "rendered_line include_timestamps m =
     (case (if include_timestamps then stamp (created_at m) else None) of
        Some ts \<Rightarrow> str ''['' @ ts @ str ''] '' @ resolved_author m @ str '': '' @ trimmed_content m
      | None \<Rightarrow> resolved_author m @ str '': '' @ trimmed_content m)"

text \<open>One line per record of non-empty trimmed content, joined by newlines.\<close>

definition rendered :: "message list \<Rightarrow> bool \<Rightarrow> pystr" where
  "rendered messages include_timestamps =
     join (str [CHR 0x0A])
       (map (rendered_line include_timestamps)
          (filter (\<lambda>m. trimmed_content m \<noteq> []) messages))"

subsection \<open>Sample data\<close>

text \<open>\<open>n_words n\<close> is the text \<open>"a a ... a "\<close> of \<open>n\<close> words.\<close>

definition n_words :: "nat \<Rightarrow> pystr" where
  "n_words n = concat (replicate n [97, 32])"

text \<open>A record of \<open>n\<close> words, with an id to tell records of equal content apart.\<close>

definition sized_record :: "int \<Rightarrow> nat \<Rightarrow> message" where
  "sized_record i n =
     \<lparr>message_id = i, author = Some (str ''alice''), current_username = None,
      content = Some (n_words n), created_at = None\<rparr>"

text \<open>
  Four records: one with a \<open>datetime\<close>, one of empty content, one named by its
  secondary username and padded with spaces, one with no name and an empty timestamp.
\<close>

definition sample_thread :: "message list" where
  "sample_thread =
     [\<lparr>message_id = 1, author = Some (str ''alice''), current_username = None,
       content = Some (str ''a''), created_at = Some (Datetime 2024 1 15 14 32)\<rparr>,
      \<lparr>message_id = 2, author = Some (str ''bob''), current_username = None,
       content = Some [], created_at = None\<rparr>,
      \<lparr>message_id = 3, author = None, current_username = Some (str ''carol''),
       content = Some (str ''  hi there ''), created_at = None\<rparr>,
      \<lparr>message_id = 4, author = None, current_username = None,
       content = Some (str ''x''), created_at = Some (TsText [])\<rparr>]"

text \<open>A record whose display name is the empty string.\<close>

definition unnamed_reply :: message where
  "unnamed_reply =
     \<lparr>message_id = 1, author = Some [], current_username = Some (str ''bob''),
      content = Some (str ''hi''), created_at = None\<rparr>"

text \<open>A record whose content holds a newline between two letters.\<close>

definition two_line_note :: message where
  "two_line_note =
     \<lparr>message_id = 1, author = Some (str ''alice''), current_username = None,
      content = Some (str ''a'' @ [10] @ str ''b''), created_at = None\<rparr>"

section \<open>Rounding to double precision\<close>

lemma round_half_even_ge:
  assumes "0 < d" and "k * d \<le> n"
  shows "k \<le> round_half_even n d"
proof -
  have "k \<le> n div d"
    using assms by (metis zdiv_mono1 nonzero_mult_div_cancel_right less_irrefl)
  then show ?thesis by (simp add: round_half_even_def Let_def)
qed

lemma round_half_even_le:
  assumes "0 < d" and "n \<le> k * d"
  shows "round_half_even n d \<le> k"
proof -
  have le: "n div d \<le> k"
    using assms by (metis zdiv_mono1 nonzero_mult_div_cancel_right less_irrefl)
  show ?thesis
  proof (cases "n div d = k")
    case True
    have "n = (n div d) * d + n mod d" by simp
    then have "n mod d \<le> 0" using assms(2) True by (metis add_le_same_cancel1)
    moreover have "0 \<le> n mod d" using assms(1) by simp
    ultimately have "n mod d = 0" by simp
    then show ?thesis using True assms(1) by (simp add: round_half_even_def Let_def)
  next
    case False
    then have "n div d + 1 \<le> k" using le by simp
    then show ?thesis by (simp add: round_half_even_def Let_def)
  qed
qed

lemma round_half_even_exact: "0 < d \<Longrightarrow> round_half_even (k * d) d = k"
  by (simp add: round_half_even_def Let_def)

lemma floor_log2_lower:
  assumes "0 < a" and "0 < b"
  shows "b * 2 ^ nat (floor_log2 a b) \<le> a * 2 ^ nat (- floor_log2 a b)"
proof (cases "b * 2 ^ nat (bitlen a - bitlen b) \<le> a * 2 ^ nat (- (bitlen a - bitlen b))")
  case True
  then show ?thesis by (simp add: floor_log2_def Let_def)
next
  case False
  then have fl: "floor_log2 a b = bitlen a - bitlen b - 1"
    by (simp add: floor_log2_def Let_def)
  have la: "2 ^ nat (bitlen a - 1) \<le> a" using bitlen_bounds [OF assms(1)] by simp
  have lb: "b \<le> 2 ^ nat (bitlen b)" using bitlen_bounds [OF assms(2)] by simp
  have pa: "1 \<le> bitlen a" using assms(1) bitlen_eq_zero_iff [of a] bitlen_nonneg [of a] by linarith
  have pb: "1 \<le> bitlen b" using assms(2) bitlen_eq_zero_iff [of b] bitlen_nonneg [of b] by linarith
  show ?thesis
  proof (cases "0 \<le> bitlen a - bitlen b - 1")
    case True
    have "b * 2 ^ nat (bitlen a - bitlen b - 1) \<le> 2 ^ nat (bitlen b) * 2 ^ nat (bitlen a - bitlen b - 1)"
      using lb by (simp add: mult_right_mono)
    also have "\<dots> = 2 ^ (nat (bitlen b) + nat (bitlen a - bitlen b - 1))"
      by (simp add: power_add)
    also have "nat (bitlen b) + nat (bitlen a - bitlen b - 1) = nat (bitlen a - 1)"
      using True pb by simp
    finally have "b * 2 ^ nat (bitlen a - bitlen b - 1) \<le> a" using la by simp
    then show ?thesis using True fl by simp
  next
    case neg: False
    have "b \<le> 2 ^ nat (bitlen b)" by (rule lb)
    also have "nat (bitlen b) = nat (bitlen a - 1) + nat (- (bitlen a - bitlen b - 1))"
      using neg pa by simp
    also have "(2::int) ^ (nat (bitlen a - 1) + nat (- (bitlen a - bitlen b - 1))) =
        2 ^ nat (bitlen a - 1) * 2 ^ nat (- (bitlen a - bitlen b - 1))"
      by (simp add: power_add)
    also have "\<dots> \<le> a * 2 ^ nat (- (bitlen a - bitlen b - 1))"
      using la by (simp add: mult_right_mono)
    finally show ?thesis using neg fl by simp
  qed
qed

lemma floor_log2_less:
  assumes "0 < a" and "0 < b" and "a < b * 2 ^ c"
  shows "floor_log2 a b < int c"
proof (rule ccontr)
  assume "\<not> floor_log2 a b < int c"
  then have ge: "int c \<le> floor_log2 a b" by simp
  then have "c \<le> nat (floor_log2 a b)" by simp
  then have "(2::int) ^ c \<le> 2 ^ nat (floor_log2 a b)" by (simp add: power_increasing)
  then have "b * 2 ^ c \<le> b * 2 ^ nat (floor_log2 a b)"
    using assms(2) by (simp add: mult_left_mono)
  also have "\<dots> \<le> a * 2 ^ nat (- floor_log2 a b)" using assms(1,2) by (rule floor_log2_lower)
  also have "\<dots> = a" using ge by simp
  finally show False using assms(3) by simp
qed

text \<open>
  Truncating the double nearest to \<open>a / b\<close>: the integer part \<open>N\<close> of the fraction, as
  long as the fraction is at most \<open>N + 15/16\<close> and below \<open>2 ^ 49\<close>, where doubles are
  at most \<open>1/16\<close> apart.
\<close>

lemma int_of_nearest_double:
  assumes a: "0 < a" and b: "0 < b" and small: "a < b * 2 ^ 49"
    and lower: "N * b \<le> a" and upper: "16 * a \<le> (16 * N + 15) * b" and N: "0 \<le> N"
  shows "int_of_double (nearest_double a b) = N"
proof -
  define s where "s = nat (52 - floor_log2 a b)"
  have fl: "floor_log2 a b < 49" using floor_log2_less [OF a b small] by simp
  then have s4: "4 \<le> s" and e: "floor_log2 a b - 52 = - int s"
    by (simp_all add: s_def)
  define m where "m = round_half_even (a * 2 ^ s) b"
  have nd: "nearest_double a b = (m, - int s)"
    using a by (simp add: nearest_double_def Let_def e m_def)
  have "(N * 2 ^ s) * b \<le> a * 2 ^ s"
    using lower by (simp add: mult.assoc mult.left_commute mult_left_mono mult.commute)
  then have m_lower: "N * 2 ^ s \<le> m"
    unfolding m_def using b by (intro round_half_even_ge)
  obtain t where t: "s = 4 + t" using s4 by (metis le_Suc_ex)
  have "a * 2 ^ s = (16 * a) * 2 ^ t" by (simp add: t power_add)
  also have "\<dots> \<le> ((16 * N + 15) * b) * 2 ^ t"
    using upper by (simp add: mult_right_mono)
  also have "\<dots> = (N * 2 ^ s + 15 * 2 ^ t) * b" by (simp add: t power_add algebra_simps)
  also have "\<dots> \<le> (N * 2 ^ s + (2 ^ s - 1)) * b"
  proof -
    have "(15::int) * 2 ^ t \<le> 2 ^ s - 1" by (simp add: t power_add)
    then show ?thesis using b by (simp add: mult_right_mono)
  qed
  finally have "a * 2 ^ s \<le> ((N + 1) * 2 ^ s - 1) * b" by (simp add: algebra_simps)
  then have m_upper: "m \<le> (N + 1) * 2 ^ s - 1"
    unfolding m_def using b by (intro round_half_even_le)
  have m0: "0 \<le> m" using m_lower N by (smt (verit) mult_nonneg_nonneg zero_le_power)
  have "m div 2 ^ s = N"
  proof (rule int_div_pos_eq)
    show "m = 2 ^ s * N + (m - N * 2 ^ s)" by simp
    show "0 \<le> m - N * 2 ^ s" using m_lower by simp
    show "m - N * 2 ^ s < 2 ^ s" using m_upper by (simp add: algebra_simps)
  qed
  then show ?thesis using m0 N
    by (cases "m = 0") (auto simp add: nd int_of_double_def)
qed

lemma TOKENS_PER_WORD_eq: "TOKENS_PER_WORD = (5854679515581645, - 52)"
  unfolding TOKENS_PER_WORD_def by code_simp

lemma bitlen_1: "bitlen 1 = 1"
  by code_simp

lemma double_of_int_pos:
  assumes "0 < n" and "n < 2 ^ 53"
  shows "double_of_int n = (n * 2 ^ nat (53 - bitlen n), bitlen n - 53)"
proof -
  have bounds: "2 ^ nat (bitlen n - 1) \<le> n" "n < 2 ^ nat (bitlen n)"
    using bitlen_bounds [OF assms(1)] by simp_all
  have pos: "1 \<le> bitlen n"
    using assms(1) bitlen_eq_zero_iff [of n] bitlen_nonneg [of n] by linarith
  have "bitlen n \<le> 53"
  proof (rule ccontr)
    assume "\<not> bitlen n \<le> 53"
    then have "53 \<le> nat (bitlen n - 1)" by simp
    then have "(2::int) ^ 53 \<le> 2 ^ nat (bitlen n - 1)" by (rule power_increasing) simp
    then show False using bounds(1) assms(2) by simp
  qed
  have fl: "floor_log2 n 1 = bitlen n - 1"
    using bounds(1) pos by (simp add: floor_log2_def bitlen_1)
  show ?thesis
    using assms(1) \<open>bitlen n \<le> 53\<close>
    by (simp add: double_of_int_def nearest_double_def fl Let_def round_half_even_def)
qed

text \<open>
  For every word count below \<open>2 ^ 48\<close>, \<open>int(n * 1.3)\<close> in double precision is the
  exact \<open>\<lfloor>13 n / 10\<rfloor>\<close>.
\<close>

lemma tokens_of_word_count:
  assumes "n < 2 ^ 48"
  shows "int_of_double (double_mul (double_of_int (int n)) TOKENS_PER_WORD) = (int n * 13) div 10"
proof (cases "n = 0")
  case True
  then show ?thesis
    by (simp add: double_of_int_def double_mul_def nearest_double_def int_of_double_def)
next
  case False
  define k where "k = int n"
  define N where "N = (k * 13) div 10"
  define c :: int where "c = 2 ^ nat (53 - bitlen k)"
  have k: "0 < k" "k < 2 ^ 48" using False assms by (simp_all add: k_def)
  have c: "0 < c" by (simp add: c_def)
  have len: "bitlen k \<le> 53" "1 \<le> bitlen k"
  proof -
    show "1 \<le> bitlen k"
      using k(1) bitlen_eq_zero_iff [of k] bitlen_nonneg [of k] by linarith
    show "bitlen k \<le> 53"
    proof (rule ccontr)
      assume "\<not> bitlen k \<le> 53"
      then have "53 \<le> nat (bitlen k - 1)" by simp
      then have "(2::int) ^ 53 \<le> 2 ^ nat (bitlen k - 1)" by (rule power_increasing) simp
      then show False using bitlen_bounds [OF k(1)] k(2) by simp
    qed
  qed
  have doi: "double_of_int k = (k * c, bitlen k - 53)"
    unfolding c_def using k by (intro double_of_int_pos) simp_all
  have "nat (105 - bitlen k) = nat (53 - bitlen k) + 52" using len by simp
  then have pw: "(2::int) ^ nat (105 - bitlen k) = c * 2 ^ 52"
    by (simp only: power_add c_def)
  have "double_mul (double_of_int k) TOKENS_PER_WORD =
      nearest_double (k * c * 5854679515581645) (2 ^ nat (105 - bitlen k))"
    using len by (simp add: double_mul_def doi TOKENS_PER_WORD_eq Let_def)
  then have mul: "double_mul (double_of_int k) TOKENS_PER_WORD =
      nearest_double (c * (k * 5854679515581645)) (c * 2 ^ 52)"
    by (simp only: pw mult.assoc mult.left_commute [of k c])
  have N: "0 \<le> N" "10 * N \<le> 13 * k" "13 * k \<le> 10 * N + 9"
    using k(1) by (simp_all add: N_def) (presburger+)?
  have "int_of_double (nearest_double (c * (k * 5854679515581645)) (c * 2 ^ 52)) = N"
  proof (rule int_of_nearest_double)
    show "0 < c * (k * 5854679515581645)" using c k(1) by simp
    show "0 < c * (2::int) ^ 52" using c by simp
    have "k * 5854679515581645 < 2 ^ 52 * 2 ^ 49" using k by simp
    then show "c * (k * 5854679515581645) < c * 2 ^ 52 * 2 ^ 49"
      using c by (simp add: mult.assoc)
    have "N * 2 ^ 52 \<le> k * 5854679515581645" using N(2) k(1) by simp
    then show "N * (c * 2 ^ 52) \<le> c * (k * 5854679515581645)"
      using c by (simp add: mult.left_commute)
    have "16 * (k * 5854679515581645) \<le> (16 * N + 15) * 2 ^ 52"
      using N(3) k(2) by simp
    then have "c * (16 * (k * 5854679515581645)) \<le> c * ((16 * N + 15) * 2 ^ 52)"
      using c by (simp only: mult_le_cancel_left_pos)
    then show "16 * (c * (k * 5854679515581645)) \<le> (16 * N + 15) * (c * 2 ^ 52)"
      by (simp add: mult.left_commute mult.commute)
    show "0 \<le> N" by (rule N(1))
  qed
  then show ?thesis using mul by (simp add: k_def N_def)
qed

section \<open>Properties of the partition\<close>

lemma estimate_tokens_nonneg: "0 \<le> estimate_tokens text"
  by (simp add: estimate_tokens_def max_def)

lemma estimate_tokens_empty: "estimate_tokens [] = 0"
  by (simp add: estimate_tokens_def)

lemma msg_tokens_nonneg: "0 \<le> msg_tokens msg"
  by (simp add: msg_tokens_def estimate_tokens_nonneg)

lemma chunk_tokens_nonneg: "0 \<le> chunk_tokens chunk"
  by (induction chunk) (simp_all add: chunk_tokens_def msg_tokens_nonneg)

lemma chunk_loop_greedy:
  "(case chunk_loop budget (chunks, running, running_total) records of
      (cs, cur, tok) \<Rightarrow> if cur \<noteq> [] then cs @ [cur] else cs)
   = chunks @ greedy budget running running_total records"
  by (induction records arbitrary: chunks running running_total) simp_all

lemma chunk_messages_greedy: "chunk_messages records budget = greedy_chunks records budget"
proof (cases records)
  case Nil
  then show ?thesis by (simp add: chunk_messages_def greedy_chunks_def)
next
  case (Cons r rs)
  have "chunk_messages records budget =
        (case chunk_loop budget ([], [], 0) records of
           (cs, cur, tok) \<Rightarrow> if cur \<noteq> [] then cs @ [cur] else cs)"
    using Cons by (simp add: chunk_messages_def)
  also have "\<dots> = [] @ greedy budget [] 0 records"
    by (rule chunk_loop_greedy)
  finally show ?thesis by (simp add: greedy_chunks_def)
qed

lemma concat_greedy: "concat (greedy budget running running_total records) = running @ records"
  by (induction records arbitrary: running running_total) simp_all

lemma greedy_nonempty: "[] \<notin> set (greedy budget running running_total records)"
  by (induction records arbitrary: running running_total) auto

lemma chunk_tokens_append:
  "chunk_tokens (xs @ ys) = chunk_tokens xs + chunk_tokens ys"
  by (simp add: chunk_tokens_def)

lemma member_le_chunk_tokens: "r \<in> set chunk \<Longrightarrow> msg_tokens r \<le> chunk_tokens chunk"
proof (induction chunk)
  case Nil
  then show ?case by simp
next
  case (Cons x xs)
  have split_sum: "chunk_tokens (x # xs) = msg_tokens x + chunk_tokens xs"
    by (simp add: chunk_tokens_def)
  show ?case
  proof (cases "r = x")
    case True
    then show ?thesis using split_sum chunk_tokens_nonneg [of xs] by simp
  next
    case False
    then have "msg_tokens r \<le> chunk_tokens xs" using Cons by simp
    then show ?thesis using split_sum msg_tokens_nonneg [of x] by simp
  qed
qed

text \<open>
  The invariant of the scan: the running total is the token count of the running chunk,
  and a running chunk of two or more records is within the budget.
\<close>

lemma greedy_budget:
  assumes "running_total = chunk_tokens running"
    and "2 \<le> length running \<longrightarrow> chunk_tokens running \<le> budget"
  shows "\<forall>c \<in> set (greedy budget running running_total records).
           2 \<le> length c \<longrightarrow> chunk_tokens c \<le> budget"
  using assms
proof (induction records arbitrary: running running_total)
  case Nil
  then show ?case by simp
next
  case (Cons r rs)
  show ?case
  proof (cases "running_total + msg_tokens r > budget \<and> running \<noteq> []")
    case True
    have "\<forall>c \<in> set (greedy budget [r] (msg_tokens r) rs).
            2 \<le> length c \<longrightarrow> chunk_tokens c \<le> budget"
      by (rule Cons.IH) (simp_all add: chunk_tokens_def)
    then show ?thesis using True Cons.prems by simp
  next
    case False
    have total: "running_total + msg_tokens r = chunk_tokens (running @ [r])"
      using Cons.prems(1) by (simp add: chunk_tokens_def)
    have fits: "2 \<le> length (running @ [r]) \<longrightarrow> chunk_tokens (running @ [r]) \<le> budget"
    proof
      assume "2 \<le> length (running @ [r])"
      then have "running \<noteq> []" by auto
      then have "\<not> running_total + msg_tokens r > budget" using False by simp
      then show "chunk_tokens (running @ [r]) \<le> budget" using total by simp
    qed
    have "\<forall>c \<in> set (greedy budget (running @ [r]) (running_total + msg_tokens r) rs).
            2 \<le> length c \<longrightarrow> chunk_tokens c \<le> budget"
      using total fits by (rule Cons.IH)
    then show ?thesis using False by auto
  qed
qed

lemma greedy_chunks_budget:
  "c \<in> set (greedy_chunks records budget) \<Longrightarrow> 2 \<le> length c \<Longrightarrow> chunk_tokens c \<le> budget"
  using greedy_budget [of 0 "[]" budget records]
  by (simp add: greedy_chunks_def chunk_tokens_def)

lemma greedy_chunks_oversized_alone:
  assumes "c \<in> set (greedy_chunks records budget)" and "r \<in> set c"
    and "msg_tokens r > budget"
  shows "c = [r]"
proof -
  have "\<not> 2 \<le> length c"
  proof
    assume "2 \<le> length c"
    then have "chunk_tokens c \<le> budget" using assms(1) by (rule greedy_chunks_budget [rotated])
    moreover have "msg_tokens r \<le> chunk_tokens c" using assms(2) by (rule member_le_chunk_tokens)
    ultimately show False using assms(3) by simp
  qed
  then have "length c \<le> 1" by simp
  then show ?thesis using assms(2) by (cases c) auto
qed

lemma greedy_lengths:
  assumes "map msg_tokens xs = map msg_tokens ys" and "length run1 = length run2"
  shows "map length (greedy budget run1 running_total xs) =
         map length (greedy budget run2 running_total ys)"
  using assms
proof (induction xs arbitrary: ys run1 run2 running_total)
  case Nil
  then show ?case by auto
next
  case (Cons x xs)
  then obtain y ys' where ys: "ys = y # ys'" and tok: "msg_tokens x = msg_tokens y"
    and rest: "map msg_tokens xs = map msg_tokens ys'"
    by (cases ys) auto
  have empty: "run1 = [] \<longleftrightarrow> run2 = []" using Cons.prems(2) by auto
  show ?case
  proof (cases "running_total + msg_tokens x > budget \<and> run1 \<noteq> []")
    case True
    have "map length (greedy budget [x] (msg_tokens y) xs) =
          map length (greedy budget [y] (msg_tokens y) ys')"
      using rest by (rule Cons.IH) simp
    then show ?thesis using True ys tok empty Cons.prems(2) by simp
  next
    case False
    have "map length (greedy budget (run1 @ [x]) (running_total + msg_tokens y) xs) =
          map length (greedy budget (run2 @ [y]) (running_total + msg_tokens y) ys')"
      using rest by (rule Cons.IH) (simp add: Cons.prems(2))
    then show ?thesis using False ys tok empty by auto
  qed
qed

text \<open>Under a negative budget every record overflows: one chunk per record.\<close>

lemma greedy_negative_budget:
  "budget < 0 \<Longrightarrow> running \<noteq> [] \<Longrightarrow> 0 \<le> running_total \<Longrightarrow>
   greedy budget running running_total records = running # map (\<lambda>r. [r]) records"
proof (induction records arbitrary: running running_total)
  case Nil
  then show ?case by simp
next
  case (Cons r rs)
  have "greedy budget [r] (msg_tokens r) rs = [r] # map (\<lambda>r. [r]) rs"
    using Cons.prems(1) by (rule Cons.IH) (simp_all add: msg_tokens_nonneg)
  moreover have "running_total + msg_tokens r > budget"
    using Cons.prems msg_tokens_nonneg [of r] by simp
  ultimately show ?case using Cons.prems(2) by simp
qed

lemma greedy_chunks_negative_budget:
  "budget < 0 \<Longrightarrow> greedy_chunks records budget = map (\<lambda>r. [r]) records"
proof (cases records)
  case Nil
  then show ?thesis by (simp add: greedy_chunks_def)
next
  case (Cons r rs)
  assume neg: "budget < 0"
  have "greedy budget [r] (msg_tokens r) rs = [r] # map (\<lambda>r. [r]) rs"
    using neg by (rule greedy_negative_budget) (simp_all add: msg_tokens_nonneg)
  then show ?thesis using Cons by (simp add: greedy_chunks_def)
qed

subsection \<open>Texts of a given word count\<close>

lemma split_n_words: "split (n_words n) = replicate n [97]"
  by (induction n) (simp_all add: split_def n_words_def is_space_def)

lemma n_words_empty: "n_words n = [] \<longleftrightarrow> n = 0"
  by (cases n) (simp_all add: n_words_def)

lemma estimate_tokens_n_words:
  "n < 2 ^ 48 \<Longrightarrow>
   estimate_tokens (n_words n) = (if n = 0 then 0 else max 1 ((int n * 13) div 10))"
  by (simp add: estimate_tokens_def split_n_words n_words_empty tokens_of_word_count)

lemma msg_tokens_sized_record:
  "n < 2 ^ 48 \<Longrightarrow>
   msg_tokens (sized_record i n) = (if n = 0 then 0 else max 1 ((int n * 13) div 10))"
  by (simp add: msg_tokens_def sized_record_def or_else_def estimate_tokens_n_words
      n_words_empty estimate_tokens_empty)

section \<open>The claims on the partition\<close>

text \<open>
  C1, concatenation law. For every list of records and every budget (the positive ones
  in particular), the chunks of \<open>chunk_messages\<close> concatenated in order are the input
  list itself, and no chunk is empty: every record lies in exactly one chunk, at its
  original position, and nothing is added, dropped or reordered.
\<close>

theorem chunk_messages_concatenation:
  "concat (chunk_messages records max_tokens) = records \<and>
   [] \<notin> set (chunk_messages records max_tokens)"
  by (simp add: chunk_messages_greedy greedy_chunks_def concat_greedy greedy_nonempty)

text \<open>
  C3, the reference algorithm. \<open>chunk_messages\<close>, the loop over three variables of the
  source, returns what the greedy left-to-right scan of the specification returns, for
  every input and budget. Three records estimated at 4000 tokens each, under a budget of
  8000, give the two chunks \<open>[[r1, r2], [r3]]\<close>.
\<close>

theorem chunk_messages_refines_greedy:
  "chunk_messages records max_tokens = greedy_chunks records max_tokens \<and>
   (msg_tokens r1 = 4000 \<and> msg_tokens r2 = 4000 \<and> msg_tokens r3 = 4000 \<longrightarrow>
    chunk_messages [r1, r2, r3] 8000 = [[r1, r2], [r3]])"
  by (simp add: chunk_messages_greedy greedy_chunks_def)

theorem chunk_messages_refines_greedy_witness:
  "msg_tokens (sized_record 1 3077) = 4000 \<and> msg_tokens (sized_record 2 3077) = 4000 \<and>
   msg_tokens (sized_record 3 3077) = 4000 \<and>
   chunk_messages [sized_record 1 3077, sized_record 2 3077, sized_record 3 3077] 8000 =
     [[sized_record 1 3077, sized_record 2 3077], [sized_record 3 3077]] \<and>
   greedy_chunks [sized_record 1 3077, sized_record 2 3077, sized_record 3 3077] 8000 =
     [[sized_record 1 3077, sized_record 2 3077], [sized_record 3 3077]]"
proof -
  have tokens: "msg_tokens (sized_record i 3077) = 4000" for i
    by (simp add: msg_tokens_sized_record)
  note inst =
    chunk_messages_refines_greedy
      [of "[sized_record 1 3077, sized_record 2 3077, sized_record 3 3077]" 8000
          "sized_record 1 3077" "sized_record 2 3077" "sized_record 3 3077"]
  have same: "chunk_messages [sized_record 1 3077, sized_record 2 3077, sized_record 3 3077] 8000 =
      greedy_chunks [sized_record 1 3077, sized_record 2 3077, sized_record 3 3077] 8000"
    using inst by (rule conjunct1)
  have chunks: "chunk_messages [sized_record 1 3077, sized_record 2 3077, sized_record 3 3077] 8000 =
      [[sized_record 1 3077, sized_record 2 3077], [sized_record 3 3077]]"
    using inst tokens by blast
  show ?thesis using same chunks tokens by metis
qed

text \<open>
  C2, budget and no-split law. For every list of records and every budget (the positive
  ones in particular), a chunk of two or more records has a token count, the sum of the
  estimates of its records, of at most \<open>max_tokens\<close>; a record whose own estimate
  exceeds \<open>max_tokens\<close> is the only record of its chunk; and every such record of the
  input is kept: the chunk made of it alone is among the chunks returned.
\<close>

theorem chunk_messages_budget_no_split:
  "(\<forall>c \<in> set (chunk_messages records max_tokens).
      (2 \<le> length c \<longrightarrow> chunk_tokens c \<le> max_tokens) \<and>
      (\<forall>r \<in> set c. msg_tokens r > max_tokens \<longrightarrow> c = [r])) \<and>
   (\<forall>r \<in> set records. msg_tokens r > max_tokens \<longrightarrow>
      [r] \<in> set (chunk_messages records max_tokens))"
proof -
  let ?chunks = "greedy_chunks records max_tokens"
  have eq: "chunk_messages records max_tokens = ?chunks"
    by (rule chunk_messages_greedy)
  have budget: "\<forall>c \<in> set ?chunks. 2 \<le> length c \<longrightarrow> chunk_tokens c \<le> max_tokens"
    using greedy_chunks_budget by blast
  have alone: "\<forall>c \<in> set ?chunks. \<forall>r \<in> set c. msg_tokens r > max_tokens \<longrightarrow> c = [r]"
    using greedy_chunks_oversized_alone by blast
  have kept: "\<forall>r \<in> set records. msg_tokens r > max_tokens \<longrightarrow> [r] \<in> set ?chunks"
  proof (intro ballI impI)
    fix r
    assume "r \<in> set records" and big: "msg_tokens r > max_tokens"
    then have "r \<in> set (concat ?chunks)"
      by (simp add: greedy_chunks_def concat_greedy)
    then obtain c where c: "c \<in> set ?chunks" "r \<in> set c" by auto
    then have "c = [r]" using big alone by blast
    then show "[r] \<in> set ?chunks" using c(1) by simp
  qed
  show ?thesis using eq budget alone kept by simp
qed

theorem chunk_messages_budget_no_split_witness:
  "chunk_messages [sized_record 1 3077, sized_record 2 3077, sized_record 3 7000] 8000 =
     [[sized_record 1 3077, sized_record 2 3077], [sized_record 3 7000]] \<and>
   chunk_tokens [sized_record 1 3077, sized_record 2 3077] \<le> 8000 \<and>
   msg_tokens (sized_record 3 7000) > 8000 \<and>
   [sized_record 3 7000] \<in>
     set (chunk_messages [sized_record 1 3077, sized_record 2 3077, sized_record 3 7000] 8000)"
proof -
  have small: "msg_tokens (sized_record i 3077) = 4000" for i
    by (simp add: msg_tokens_sized_record)
  have big: "msg_tokens (sized_record 3 7000) = 9100"
    by (simp add: msg_tokens_sized_record)
  have chunks:
    "chunk_messages [sized_record 1 3077, sized_record 2 3077, sized_record 3 7000] 8000 =
       [[sized_record 1 3077, sized_record 2 3077], [sized_record 3 7000]]"
    by (simp add: chunk_messages_def small big)
  show ?thesis
    using chunk_messages_budget_no_split
      [of "[sized_record 1 3077, sized_record 2 3077, sized_record 3 7000]" 8000]
    by (simp add: chunks big)
qed

text \<open>
  C8, invalid budget. \<open>chunk_messages\<close> does not check \<open>max_tokens\<close>: with a budget of
  zero the call returns a chunking and raises nothing.
\<close>

theorem chunk_messages_zero_budget_returns:
  "chunk_messages_call [sized_record 1 1] 0 = Inr [[sized_record 1 1]] \<and>
   \<not> isl (chunk_messages_call [sized_record 1 1] 0)"
  by (simp add: chunk_messages_call_def chunk_messages_def)

text \<open>
  C8 as the code has it. For every list of records and every zero or negative budget
  the call returns, and what it returns is a chunking of the input: the chunks
  concatenate to the input and none is empty. Under a negative budget every record is a
  chunk of its own.
\<close>

theorem chunk_messages_invalid_budget:
  "max_tokens \<le> 0 \<longrightarrow>
     (\<exists>chunks. chunk_messages_call records max_tokens = Inr chunks \<and>
        concat chunks = records \<and> [] \<notin> set chunks \<and>
        (max_tokens < 0 \<longrightarrow> chunks = map (\<lambda>r. [r]) records))"
  by (simp add: chunk_messages_call_def chunk_messages_greedy greedy_chunks_negative_budget)
    (simp add: greedy_chunks_def concat_greedy greedy_nonempty)

theorem chunk_messages_invalid_budget_witness:
  "chunk_messages_call [sized_record 1 2, sized_record 2 0, sized_record 3 0] (- 5) =
     Inr [[sized_record 1 2], [sized_record 2 0], [sized_record 3 0]] \<and>
   chunk_messages_call [sized_record 1 2, sized_record 2 0, sized_record 3 0] 0 =
     Inr [[sized_record 1 2], [sized_record 2 0, sized_record 3 0]]"
proof -
  have zero: "chunk_messages_call [sized_record 1 2, sized_record 2 0, sized_record 3 0] 0 =
     Inr [[sized_record 1 2], [sized_record 2 0, sized_record 3 0]]"
    by (simp add: chunk_messages_call_def chunk_messages_def msg_tokens_sized_record)
  show ?thesis
    using chunk_messages_invalid_budget
      [of "- 5" "[sized_record 1 2, sized_record 2 0, sized_record 3 0]"]
    by (auto simp add: zero)
qed

text \<open>
  C10, chunk boundaries depend on the contents only. Two lists of equal length whose
  records have pairwise equal \<open>content\<close> fields are cut at the same positions under the
  same budget: their chunk lists have the same lengths, chunk for chunk, whatever the
  authors, timestamps and ids of the records are.
\<close>

theorem chunk_boundaries_depend_on_content:
  assumes "length xs = length ys"
    and "\<forall>i < length xs. content (xs ! i) = content (ys ! i)"
  shows "map length (chunk_messages xs max_tokens) = map length (chunk_messages ys max_tokens)"
proof -
  have "map msg_tokens xs = map msg_tokens ys"
    using assms by (simp add: list_eq_iff_nth_eq msg_tokens_def)
  then have "map length (greedy max_tokens [] 0 xs) = map length (greedy max_tokens [] 0 ys)"
    by (rule greedy_lengths) simp
  then show ?thesis by (simp add: chunk_messages_greedy greedy_chunks_def)
qed

theorem chunk_boundaries_depend_on_content_witness:
  "map length (chunk_messages [sized_record 1 3077, sized_record 2 3077, sized_record 3 3077] 8000) =
   map length (chunk_messages
     [(sized_record 7 3077)\<lparr>author := None\<rparr>,
      (sized_record 8 3077)\<lparr>created_at := Some (Datetime 2024 1 15 14 32)\<rparr>,
      (sized_record 9 3077)\<lparr>author := Some (str ''bob''), current_username := Some (str ''bob'')\<rparr>]
     8000) \<and>
   map length (chunk_messages [sized_record 1 3077, sized_record 2 3077, sized_record 3 3077] 8000)
     = [2, 1]"
proof -
  let ?xs = "[sized_record 1 3077, sized_record 2 3077, sized_record 3 3077]"
  let ?ys = "[(sized_record 7 3077)\<lparr>author := None\<rparr>,
      (sized_record 8 3077)\<lparr>created_at := Some (Datetime 2024 1 15 14 32)\<rparr>,
      (sized_record 9 3077)\<lparr>author := Some (str ''bob''), current_username := Some (str ''bob'')\<rparr>]"
  have len: "length ?xs = length ?ys" by simp
  have same: "\<forall>i < length ?xs. content (?xs ! i) = content (?ys ! i)"
    by (auto simp add: less_Suc_eq numeral_3_eq_3 sized_record_def)
  have tokens: "msg_tokens (sized_record i 3077) = 4000" for i
    by (simp add: msg_tokens_sized_record)
  have cut: "map length (chunk_messages ?xs 8000) = [2, 1]"
    by (simp add: chunk_messages_def tokens)
  show ?thesis
    using chunk_boundaries_depend_on_content [OF len same, of 8000] cut by simp
qed

section \<open>Properties of the token estimator\<close>

lemma floor_rat_numeral:
  "\<lfloor>(numeral a :: rat) / numeral b\<rfloor> = numeral a div numeral b"
  using floor_divide_of_int_eq [of "numeral a" "numeral b", where ?'a = rat] by simp

lemma str_eq_Nil: "str s = [] \<longleftrightarrow> s = []"
  by (simp add: str_def)

lemma split_from_spaces: "\<forall>c \<in> set s. is_space c \<Longrightarrow> split_from [] s = []"
  by (induction s) simp_all

lemma split_spaces: "\<forall>c \<in> set s. is_space c \<Longrightarrow> split s = []"
  by (simp add: split_def split_from_spaces)

lemma estimate_tokens_words:
  assumes "s \<noteq> []" and "length (split s) < 2 ^ 48"
  shows "estimate_tokens s = max 1 ((int (length (split s)) * 13) div 10)"
  using assms by (simp add: estimate_tokens_def tokens_of_word_count)

lemma split_hello_world: "split (str ''hello world'') = [str ''hello'', str ''world'']"
  by (simp add: split_def str_def is_space_def)

lemma estimate_hello_world: "estimate_tokens (str ''hello world'') = 2"
  using estimate_tokens_words [of "str ''hello world''"]
  by (simp add: split_hello_world str_eq_Nil)

section \<open>The claims on the token estimator\<close>

text \<open>
  C4, the estimate of a text with words. \<open>"hello world"\<close> has two words and
  \<open>estimate_tokens\<close> returns 2 for it: \<open>int(2 * 1.3)\<close> truncates \<open>2.6\<close>, where rounding
  to the nearest integer gives 3.
\<close>

theorem estimate_tokens_hello_world_is_2:
  "length (split (str ''hello world'')) = 2 \<and>
   estimate_tokens (str ''hello world'') = 2 \<and>
   max 1 (round (rat_of_nat (length (split (str ''hello world''))) * 13 / 10)) = 3 \<and>
   estimate_tokens (str ''hello world'') \<noteq>
     max 1 (round (rat_of_nat (length (split (str ''hello world''))) * 13 / 10))"
  by (simp add: estimate_hello_world split_hello_world round_def floor_rat_numeral)

text \<open>
  C4 as the code has it. For every text of word count \<open>w \<ge> 1\<close>, \<open>estimate_tokens\<close>
  returns \<open>max(1, int(w * 1.3))\<close>, the double product truncated towards zero; for every
  word count below \<open>2 ^ 48\<close> this is \<open>max(1, \<lfloor>13 w / 10\<rfloor>)\<close>. In particular the
  estimate of \<open>"hello world"\<close> is 2.
\<close>

theorem estimate_tokens_truncates:
  "(1 \<le> length (split s) \<longrightarrow>
      estimate_tokens s =
        max 1 (int_of_double
                 (double_mul (double_of_int (int (length (split s)))) TOKENS_PER_WORD)) \<and>
      (length (split s) < 2 ^ 48 \<longrightarrow>
         estimate_tokens s = max 1 \<lfloor>rat_of_nat (length (split s)) * 13 / 10\<rfloor>)) \<and>
   estimate_tokens (str ''hello world'') = 2"
proof (intro impI conjI)
  show "estimate_tokens (str ''hello world'') = 2" by (rule estimate_hello_world)
next
  assume w: "1 \<le> length (split s)"
  then have ne: "s \<noteq> []" by (auto simp add: split_def)
  then show "estimate_tokens s =
       max 1 (int_of_double (double_mul (double_of_int (int (length (split s)))) TOKENS_PER_WORD))"
    by (simp add: estimate_tokens_def)
  assume small: "length (split s) < 2 ^ 48"
  have "\<lfloor>rat_of_nat (length (split s)) * 13 / 10\<rfloor> = (int (length (split s)) * 13) div 10"
    using floor_divide_of_int_eq [of "int (length (split s)) * 13" 10, where ?'a = rat] by simp
  then show "estimate_tokens s = max 1 \<lfloor>rat_of_nat (length (split s)) * 13 / 10\<rfloor>"
    using estimate_tokens_words [OF ne small] by simp
qed

theorem estimate_tokens_truncates_witness:
  "length (split (n_words 5)) = 5 \<and>
   estimate_tokens (n_words 5) = max 1 \<lfloor>(5::rat) * 13 / 10\<rfloor> \<and>
   max 1 \<lfloor>(5::rat) * 13 / 10\<rfloor> = (6::int)"
  using estimate_tokens_truncates [of "n_words 5"]
  by (simp add: split_n_words floor_rat_numeral)

text \<open>
  C5, blank texts. A text of one space is not empty, so the test \<open>not text\<close> lets it
  pass; it has no word, and \<open>max(1, int(0 * 1.3))\<close> is 1.
\<close>

theorem estimate_tokens_single_space: "estimate_tokens (str '' '') = 1 \<and> estimate_tokens (str '' '') \<noteq> 0"
proof -
  have "split (str '' '') = []" by (simp add: split_def str_def is_space_def)
  then show ?thesis
    using tokens_of_word_count [of 0] by (simp add: estimate_tokens_def str_eq_Nil)
qed

text \<open>
  C5 as the code has it. \<open>estimate_tokens\<close> returns 0 for the empty text, and 1 for
  every non-empty text made of whitespace characters only.
\<close>

theorem estimate_tokens_blank:
  "estimate_tokens [] = 0 \<and>
   (s \<noteq> [] \<and> (\<forall>c \<in> set s. is_space c) \<longrightarrow> estimate_tokens s = 1)"
  using tokens_of_word_count [of 0]
  by (simp add: estimate_tokens_def split_spaces)

theorem estimate_tokens_blank_witness:
  "estimate_tokens (str '' '') = 1 \<and> estimate_tokens [9, 10, 32, 160, 8195] = 1"
  using estimate_tokens_blank [of "str '' ''"] estimate_tokens_blank [of "[9, 10, 32, 160, 8195]"]
  by (simp add: str_def is_space_def)


section \<open>Properties of the statistics\<close>

lemma ceiling_rat_div: "\<lceil>rat_of_int a / rat_of_int b\<rceil> = - ((- a) div b)"
proof -
  have "\<lceil>rat_of_int a / rat_of_int b\<rceil> = - \<lfloor>rat_of_int (- a) / rat_of_int b\<rfloor>"
    by (simp add: ceiling_def)
  then show ?thesis by (simp only: floor_divide_of_int_eq)
qed

lemma round_half_even_near:
  assumes "0 < d"
  shows "\<bar>rat_of_int (round_half_even n d) - rat_of_int n / rat_of_int d\<bar> \<le> 1 / 2"
proof -
  define q where "q = n div d"
  define r where "r = n mod d"
  have n: "n = q * d + r" by (simp add: q_def r_def)
  have r: "0 \<le> r" "r < d" using assms by (simp_all add: r_def)
  have dpos: "0 < rat_of_int d" using assms by simp
  have frac: "rat_of_int n / rat_of_int d = rat_of_int q + rat_of_int r / rat_of_int d"
    using assms by (simp add: n add_divide_distrib)
  have lo: "0 \<le> rat_of_int r / rat_of_int d" using r(1) dpos by simp
  have hi: "rat_of_int r / rat_of_int d < 1" using r(2) dpos by simp
  consider "2 * r < d" | "2 * r > d" | "2 * r = d" by linarith
  then show ?thesis
  proof cases
    case 1
    then have "rat_of_int (2 * r) < rat_of_int d" by (simp only: of_int_less_iff)
    then have "rat_of_int r / rat_of_int d < 1 / 2" using dpos by (simp add: field_simps)
    moreover have "round_half_even n d = q"
      using 1 by (simp add: round_half_even_def Let_def q_def r_def)
    ultimately show ?thesis using frac lo by simp
  next
    case 2
    then have "rat_of_int d < rat_of_int (2 * r)" by (simp only: of_int_less_iff)
    then have "1 / 2 < rat_of_int r / rat_of_int d" using dpos by (simp add: field_simps)
    moreover have "round_half_even n d = q + 1"
      using 2 by (simp add: round_half_even_def Let_def q_def r_def)
    ultimately show ?thesis using frac hi by simp
  next
    case 3
    then have "rat_of_int (2 * r) = rat_of_int d" by simp
    then have half: "rat_of_int r / rat_of_int d = 1 / 2" using dpos by (simp add: field_simps)
    have "round_half_even n d = q \<or> round_half_even n d = q + 1"
      by (simp add: round_half_even_def Let_def q_def r_def)
    then show ?thesis using frac half by auto
  qed
qed

lemma true_div_length:
  "messages \<noteq> [] \<Longrightarrow> true_div t (int (length messages)) = Inr (nearest_double t (int (length messages)))"
  by (simp add: true_div_def)

lemma round1_decimal:
  "\<bar>rat_of_int (round_half_even (10 * fst x * 2 ^ nat (snd x)) (2 ^ nat (- snd x))) / 10
     - double_value x\<bar> \<le> 1 / 20"
proof -
  define t where "t = round_half_even (10 * fst x * 2 ^ nat (snd x)) (2 ^ nat (- snd x))"
  have "\<bar>rat_of_int t - rat_of_int (10 * fst x * 2 ^ nat (snd x)) / rat_of_int (2 ^ nat (- snd x))\<bar> \<le> 1 / 2"
    unfolding t_def by (rule round_half_even_near) simp
  moreover have "rat_of_int (10 * fst x * 2 ^ nat (snd x)) / rat_of_int (2 ^ nat (- snd x)) =
      10 * double_value x"
  proof (cases "0 \<le> snd x")
    case True
    then show ?thesis by (simp add: double_value_def power_int_def)
  next
    case False
    then show ?thesis by (simp add: double_value_def power_int_def field_simps)
  qed
  ultimately have "\<bar>rat_of_int t - 10 * double_value x\<bar> \<le> 1 / 2" by simp
  then show ?thesis unfolding t_def [symmetric] by (simp add: abs_le_iff field_simps)
qed

lemma stats_scenario:
  "double_value (round1 (nearest_double 16000 4)) = 4000"
  by code_simp

lemma scaled_fraction:
  "0 < b \<Longrightarrow> rat_of_int (a * 2 ^ nat (- e)) / rat_of_int (b * 2 ^ nat e) =
     (rat_of_int a / rat_of_int b) * 2 powi (- e)"
  by (cases "0 \<le> e") (simp_all add: power_int_def field_simps)

lemma nearest_double_error:
  assumes a: "0 < a" and b: "0 < b"
  shows "\<bar>double_value (nearest_double a b) - rat_of_int a / rat_of_int b\<bar>
           \<le> (rat_of_int a / rat_of_int b) / 2 ^ 53"
proof -
  define f where "f = floor_log2 a b"
  define e where "e = f - 52"
  define m where "m = round_half_even (a * 2 ^ nat (- e)) (b * 2 ^ nat e)"
  define x where "x = rat_of_int a / rat_of_int b"
  have nd: "nearest_double a b = (m, e)"
    using a by (simp add: nearest_double_def Let_def m_def e_def f_def)
  have "\<bar>rat_of_int m - rat_of_int (a * 2 ^ nat (- e)) / rat_of_int (b * 2 ^ nat e)\<bar> \<le> 1 / 2"
    unfolding m_def using b by (intro round_half_even_near) simp
  then have near: "\<bar>rat_of_int m - x * 2 powi (- e)\<bar> \<le> 1 / 2"
    using scaled_fraction [OF b, of a e] by (simp add: x_def)
  have pe: "(0::rat) < 2 powi e" by simp
  have "\<bar>rat_of_int m * 2 powi e - x\<bar> = \<bar>rat_of_int m - x * 2 powi (- e)\<bar> * 2 powi e"
  proof -
    have "rat_of_int m * 2 powi e - x = (rat_of_int m - x * 2 powi (- e)) * 2 powi e"
      by (simp add: algebra_simps power_int_minus)
    then show ?thesis by (simp add: abs_mult)
  qed
  also have "\<dots> \<le> (1 / 2) * 2 powi e"
    using near pe by (intro mult_right_mono) simp_all
  also have "\<dots> = 2 powi f / 2 ^ 53"
    by (simp add: e_def power_int_diff)
  finally have err: "\<bar>double_value (nearest_double a b) - x\<bar> \<le> 2 powi f / 2 ^ 53"
    by (simp add: nd double_value_def)
  have "b * 2 ^ nat f \<le> a * 2 ^ nat (- f)"
    unfolding f_def using a b by (rule floor_log2_lower)
  then have "rat_of_int (b * 2 ^ nat f) \<le> rat_of_int (a * 2 ^ nat (- f))"
    by (simp only: of_int_le_iff)
  then have "2 powi f \<le> x"
    using b by (cases "0 \<le> f") (simp_all add: x_def power_int_def field_simps)
  then have "2 powi f / 2 ^ 53 \<le> x / 2 ^ 53" by (simp add: divide_right_mono)
  then show ?thesis using err by (simp add: x_def)
qed

lemma nearest_double_zero: "double_value (nearest_double 0 b) = 0"
  by (simp add: nearest_double_def double_value_def)

lemma nearest_double_error_nonneg:
  assumes "0 \<le> a" and "0 < b"
  shows "\<bar>double_value (nearest_double a b) - rat_of_int a / rat_of_int b\<bar>
           \<le> (rat_of_int a / rat_of_int b) / 2 ^ 53"
proof (cases "a = 0")
  case True
  then show ?thesis by (simp add: nearest_double_zero)
next
  case False
  then have "0 < a" using assms(1) by simp
  then show ?thesis using assms(2) by (rule nearest_double_error)
qed

lemma nearest_double_fst_nonneg:
  assumes "0 \<le> a" and "0 < b"
  shows "0 \<le> fst (nearest_double a b)"
proof (cases "a = 0")
  case True
  then show ?thesis by (simp add: nearest_double_def)
next
  case False
  then have a: "0 < a" using assms(1) by simp
  have "0 \<le> round_half_even (a * 2 ^ nat (- (floor_log2 a b - 52))) (b * 2 ^ nat (floor_log2 a b - 52))"
    using assms(2) a by (intro round_half_even_ge) simp_all
  then show ?thesis using a by (simp add: nearest_double_def Let_def)
qed

text \<open>
  \<open>round(tot / count, 1)\<close> is within \<open>1/20\<close> of the exact quotient, up to the rounding of
  the doubles involved.
\<close>

lemma rounded_average_error:
  assumes t: "0 \<le> tot" and n: "0 < count"
  shows "\<bar>double_value (round1 (nearest_double tot count)) - rat_of_int tot / rat_of_int count\<bar>
           \<le> 1 / 20 + (rat_of_int tot / rat_of_int count + 1) / 2 ^ 51"
proof -
  define x where "x = rat_of_int tot / rat_of_int count"
  define q where "q = nearest_double tot count"
  define d where "d = round_half_even (10 * fst q * 2 ^ nat (snd q)) (2 ^ nat (- snd q))"
  have x0: "0 \<le> x" using t n by (simp add: x_def)
  have qx: "\<bar>double_value q - x\<bar> \<le> x / 2 ^ 53"
    unfolding q_def x_def using t n by (rule nearest_double_error_nonneg)
  have dq: "\<bar>rat_of_int d / 10 - double_value q\<bar> \<le> 1 / 20"
    unfolding d_def by (rule round1_decimal)
  have "0 \<le> fst q" unfolding q_def using t n by (rule nearest_double_fst_nonneg)
  then have "0 * 2 ^ nat (- snd q) \<le> 10 * fst q * 2 ^ nat (snd q)" by simp
  then have d0: "0 \<le> d" unfolding d_def by (intro round_half_even_ge) simp_all
  have avg: "\<bar>double_value (nearest_double d 10) - rat_of_int d / 10\<bar> \<le> (rat_of_int d / 10) / 2 ^ 53"
    using nearest_double_error_nonneg [OF d0, of 10] by simp
  have r1: "round1 q = nearest_double d 10" by (simp add: round1_def d_def)
  define eps where "eps = x / 2 ^ 53"
  have qx': "\<bar>double_value q - x\<bar> \<le> eps" using qx by (simp add: eps_def)
  have dx: "rat_of_int d / 10 \<le> x + eps + 1 / 20" using qx' dq by linarith
  have avg': "\<bar>double_value (nearest_double d 10) - rat_of_int d / 10\<bar> \<le> (x + eps + 1 / 20) / 2 ^ 53"
  proof -
    have "(rat_of_int d / 10) / 2 ^ 53 \<le> (x + eps + 1 / 20) / 2 ^ 53"
      using dx by (rule divide_right_mono) simp
    then show ?thesis using avg by linarith
  qed
  have "\<bar>double_value (round1 q) - x\<bar> \<le>
        \<bar>double_value (nearest_double d 10) - rat_of_int d / 10\<bar> +
        \<bar>rat_of_int d / 10 - double_value q\<bar> + \<bar>double_value q - x\<bar>"
    unfolding r1 by linarith
  also have "\<dots> \<le> (x + eps + 1 / 20) / 2 ^ 53 + 1 / 20 + eps"
    using avg' dq qx' by linarith
  also have "\<dots> \<le> 1 / 20 + (x + 1) / 2 ^ 51"
    using x0 by (simp add: eps_def field_simps)
  finally show ?thesis by (simp add: q_def x_def)
qed

lemma stats_nonempty_eq:
  assumes "messages \<noteq> []"
  shows "stats messages =
     Inr \<lparr>total_messages = int (length messages), total_tokens = chunk_tokens messages,
          estimated_chunks = max 1 (- ((- chunk_tokens messages) div 8000)),
          avg_tokens_per_message =
            double_value (round1 (nearest_double (chunk_tokens messages) (int (length messages))))\<rparr>"
  using assms
  by (simp add: stats_def Let_def true_div_length chunk_tokens_def DEFAULT_MAX_TOKENS_def)

section \<open>The claims on the statistics and on empty inputs\<close>

text \<open>
  C7, statistics. For one record of empty content the total is 0 tokens, and
  \<open>estimated_chunks\<close> is 1: the source takes \<open>max(1, ...)\<close> for every non-empty list,
  where the ceiling of \<open>0 / 8000\<close>, with a minimum of 1 only if there are tokens, is 0.
\<close>

theorem stats_zero_tokens:
  "stats [sized_record 1 0] =
     Inr \<lparr>total_messages = 1, total_tokens = 0, estimated_chunks = 1,
          avg_tokens_per_message = 0\<rparr> \<and>
   \<lceil>rat_of_int 0 / 8000\<rceil> = 0"
proof -
  have "chunk_tokens [sized_record 1 0] = 0"
    by (simp add: chunk_tokens_def msg_tokens_sized_record)
  then show ?thesis
    using stats_nonempty_eq [of "[sized_record 1 0]"]
    by (simp add: round1_def nearest_double_def round_half_even_def double_value_def)
qed

text \<open>
  C7 as the code has it. For every non-empty list of records, \<open>stats\<close> returns
  \<open>total_messages\<close> equal to the record count, \<open>total_tokens\<close> equal to the sum of the
  estimates of the records, \<open>estimated_chunks\<close> equal to the ceiling of
  \<open>total_tokens / 8000\<close> and at least 1 (also when there is no token), and
  \<open>avg_tokens_per_message\<close> equal to \<open>round(total_tokens / count, 1)\<close>: the double
  nearest to a decimal of one digit after the point that is a nearest one to the double
  quotient, hence within \<open>1/20\<close> of the exact quotient up to the rounding of doubles.
  Four records that total 16000 tokens give \<open>estimated_chunks = 2\<close> and
  \<open>avg_tokens_per_message = 4000.0\<close>.
\<close>

theorem stats_nonempty:
  "messages \<noteq> [] \<longrightarrow>
     (\<exists>r. stats messages = Inr r \<and>
        total_messages r = int (length messages) \<and>
        total_tokens r = chunk_tokens messages \<and>
        estimated_chunks r = max 1 \<lceil>rat_of_int (chunk_tokens messages) / 8000\<rceil> \<and>
        (\<exists>tenths. avg_tokens_per_message r = double_value (nearest_double tenths 10) \<and>
           \<bar>rat_of_int tenths / 10 -
             double_value (nearest_double (chunk_tokens messages) (int (length messages)))\<bar>
             \<le> 1 / 20) \<and>
        \<bar>avg_tokens_per_message r -
           rat_of_int (chunk_tokens messages) / rat_of_int (int (length messages))\<bar>
          \<le> 1 / 20 +
             (rat_of_int (chunk_tokens messages) / rat_of_int (int (length messages)) + 1) / 2 ^ 51 \<and>
        (length messages = 4 \<and> chunk_tokens messages = 16000 \<longrightarrow>
           estimated_chunks r = 2 \<and> avg_tokens_per_message r = 4000))"
proof
  assume ne: "messages \<noteq> []"
  let ?t = "chunk_tokens messages"
  let ?n = "int (length messages)"
  let ?q = "nearest_double ?t ?n"
  let ?r = "\<lparr>total_messages = ?n, total_tokens = ?t,
          estimated_chunks = max 1 (- ((- ?t) div 8000)),
          avg_tokens_per_message = double_value (round1 ?q)\<rparr>"
  have n: "0 < ?n" using ne by simp
  have t: "0 \<le> ?t" by (rule chunk_tokens_nonneg)
  have ceil: "\<lceil>rat_of_int ?t / 8000\<rceil> = - ((- ?t) div 8000)"
    using ceiling_rat_div [of ?t 8000] by simp
  have dec: "\<exists>tenths. double_value (round1 ?q) = double_value (nearest_double tenths 10) \<and>
      \<bar>rat_of_int tenths / 10 - double_value ?q\<bar> \<le> 1 / 20"
    using round1_decimal [of ?q] by (auto simp add: round1_def)
  have err: "\<bar>double_value (round1 ?q) - rat_of_int ?t / rat_of_int ?n\<bar>
      \<le> 1 / 20 + (rat_of_int ?t / rat_of_int ?n + 1) / 2 ^ 51"
    using t n by (rule rounded_average_error)
  have scen: "length messages = 4 \<and> ?t = 16000 \<longrightarrow>
      max 1 (- ((- ?t) div 8000)) = 2 \<and> double_value (round1 ?q) = 4000"
    by (auto simp add: stats_scenario)
  have "stats messages = Inr ?r" using ne by (rule stats_nonempty_eq)
  then show "\<exists>r. stats messages = Inr r \<and>
        total_messages r = int (length messages) \<and>
        total_tokens r = chunk_tokens messages \<and>
        estimated_chunks r = max 1 \<lceil>rat_of_int (chunk_tokens messages) / 8000\<rceil> \<and>
        (\<exists>tenths. avg_tokens_per_message r = double_value (nearest_double tenths 10) \<and>
           \<bar>rat_of_int tenths / 10 -
             double_value (nearest_double (chunk_tokens messages) (int (length messages)))\<bar>
             \<le> 1 / 20) \<and>
        \<bar>avg_tokens_per_message r -
           rat_of_int (chunk_tokens messages) / rat_of_int (int (length messages))\<bar>
          \<le> 1 / 20 +
             (rat_of_int (chunk_tokens messages) / rat_of_int (int (length messages)) + 1) / 2 ^ 51 \<and>
        (length messages = 4 \<and> chunk_tokens messages = 16000 \<longrightarrow>
           estimated_chunks r = 2 \<and> avg_tokens_per_message r = 4000)"
    using ceil dec err scen by (intro exI [of _ ?r]) simp
qed

theorem stats_nonempty_witness:
  "stats [sized_record 1 3077, sized_record 2 3077, sized_record 3 3077, sized_record 4 3077] =
     Inr \<lparr>total_messages = 4, total_tokens = 16000, estimated_chunks = 2,
          avg_tokens_per_message = 4000\<rparr>"
proof -
  let ?ms = "[sized_record 1 3077, sized_record 2 3077, sized_record 3 3077, sized_record 4 3077]"
  have tokens: "chunk_tokens ?ms = 16000"
    by (simp add: chunk_tokens_def msg_tokens_sized_record)
  have "?ms \<noteq> []" by simp
  then obtain r where r: "stats ?ms = Inr r" "total_messages r = 4" "total_tokens r = 16000"
    "estimated_chunks r = 2" "avg_tokens_per_message r = 4000"
    using stats_nonempty [of ?ms] tokens by auto
  then have "r = \<lparr>total_messages = 4, total_tokens = 16000, estimated_chunks = 2,
          avg_tokens_per_message = 4000\<rparr>" by simp
  then show ?thesis using r(1) by simp
qed

text \<open>
  C9, emptiness. For every budget (the positive ones in particular),
  \<open>chunk_messages([], n)\<close> is the empty list of chunks, not a list of one empty chunk;
  \<open>format_for_llm([])\<close> is the empty string, with or without timestamps; and
  \<open>stats([])\<close> has all four fields zero.
\<close>

theorem emptiness:
  "chunk_messages [] n = [] \<and>
   format_for_llm [] include_timestamps = Inr [] \<and>
   stats [] = Inr \<lparr>total_messages = 0, total_tokens = 0, estimated_chunks = 0,
                   avg_tokens_per_message = 0\<rparr>"
  by (simp add: chunk_messages_def format_for_llm_def stats_def)


section \<open>Properties of the renderer\<close>

lemma or_else_empty: "or_else v [] = (case v of None \<Rightarrow> [] | Some c \<Rightarrow> c)"
  by (simp add: or_else_def split: option.splits)

lemma or_else_present: "or_else v d = (case present v of Some s \<Rightarrow> s | None \<Rightarrow> d)"
  by (cases v) (simp_all add: or_else_def)

lemma author_resolution:
  "or_else (author m) (or_else (current_username m) (str ''unknown'')) = resolved_author m"
  by (simp add: or_else_present resolved_author_def)

lemma truthy_stamp: "truthy ts \<longleftrightarrow> stamp ts \<noteq> None"
  by (induction ts rule: truthy.induct) simp_all

lemma stamp_ts_str: "truthy (Some ts) \<Longrightarrow> stamp (Some ts) = Some (ts_str ts)"
  by (cases ts) simp_all

lemma format_loop_step:
  "format_loop inc lines (m # rest) =
     (if trimmed_content m = [] then format_loop inc lines rest
      else format_loop inc (lines @ [rendered_line inc m]) rest)"
proof (cases "created_at m")
  case None
  then show ?thesis
    by (simp add: Let_def or_else_empty author_resolution trimmed_content_def rendered_line_def)
next
  case (Some ts)
  show ?thesis
  proof (cases "truthy (Some ts)")
    case True
    then show ?thesis
      using Some stamp_ts_str [OF True]
      by (simp add: Let_def or_else_empty author_resolution trimmed_content_def rendered_line_def)
  next
    case False
    then have "stamp (Some ts) = None" by (simp add: truthy_stamp)
    then show ?thesis
      using Some False
      by (simp add: Let_def or_else_empty author_resolution trimmed_content_def rendered_line_def)
  qed
qed

lemma format_loop_lines:
  "format_loop inc lines messages =
     Inr (lines @ map (rendered_line inc) (filter (\<lambda>m. trimmed_content m \<noteq> []) messages))"
proof (induction messages arbitrary: lines)
  case Nil
  then show ?case by simp
next
  case (Cons m rest)
  show ?case by (simp only: format_loop_step Cons.IH) simp
qed

lemma format_for_llm_rendered: "format_for_llm messages inc = Inr (rendered messages inc)"
  by (simp add: format_for_llm_def format_loop_lines rendered_def)

lemma strip_last: "strip s \<noteq> [] \<Longrightarrow> \<not> is_space (last (strip s))"
proof -
  assume ne: "strip s \<noteq> []"
  define t where "t = dropWhile is_space (rev (dropWhile is_space s))"
  have st: "strip s = rev t" by (simp add: strip_def t_def)
  then have "t \<noteq> []" using ne by simp
  then have "\<not> is_space (hd t)" unfolding t_def by (rule hd_dropWhile)
  moreover have "last (rev t) = hd t" using \<open>t \<noteq> []\<close> by (simp add: last_rev)
  ultimately show ?thesis using st by simp
qed

lemma rendered_line_last:
  "trimmed_content m \<noteq> [] \<Longrightarrow> last (rendered_line inc m) = last (trimmed_content m)"
  by (simp add: rendered_line_def split: option.splits)

lemma rendered_line_nonempty: "trimmed_content m \<noteq> [] \<Longrightarrow> rendered_line inc m \<noteq> []"
  by (simp add: rendered_line_def split: option.splits)

lemma join_nonempty: "ls \<noteq> [] \<Longrightarrow> last ls \<noteq> [] \<Longrightarrow> join sep ls \<noteq> []"
  by (induction sep ls rule: join.induct) auto

lemma join_last:
  "ls \<noteq> [] \<Longrightarrow> last ls \<noteq> [] \<Longrightarrow> last (join sep ls) = last (last ls)"
proof (induction sep ls rule: join.induct)
  case (1 sep)
  then show ?case by simp
next
  case (2 sep l)
  then show ?case by simp
next
  case (3 sep l v va)
  have "join sep (v # va) \<noteq> []" using "3.prems" by (intro join_nonempty) simp_all
  then show ?case using 3 by (simp add: last_append)
qed

lemma newline_is_space: "is_space 10"
  by (simp add: is_space_def)

lemma rendered_no_trailing_newline:
  "rendered messages inc = [] \<or> last (rendered messages inc) \<noteq> 10"
proof -
  define shown where "shown = filter (\<lambda>m. trimmed_content m \<noteq> []) messages"
  show ?thesis
  proof (cases "shown = []")
    case True
    then show ?thesis by (simp add: rendered_def shown_def)
  next
    case False
    define m where "m = last shown"
    have "m \<in> set shown" using False by (simp add: m_def)
    then have tc: "trimmed_content m \<noteq> []" by (simp add: shown_def)
    have lines: "map (rendered_line inc) shown \<noteq> []" using False by simp
    have lastline: "last (map (rendered_line inc) shown) = rendered_line inc m"
      using False by (simp add: last_map m_def)
    have "last (rendered messages inc) = last (rendered_line inc m)"
      using join_last [OF lines] lastline rendered_line_nonempty [OF tc]
      by (simp add: rendered_def shown_def)
    also have "\<dots> = last (trimmed_content m)" using tc by (rule rendered_line_last)
    finally have "\<not> is_space (last (rendered messages inc))"
      using strip_last tc by (simp add: trimmed_content_def)
    then show ?thesis using newline_is_space by auto
  qed
qed

lemma digits_2: "digits 2 n = [48 + n div 10 mod 10, 48 + n mod 10]"
proof -
  have "digits (Suc (Suc 0)) n = [48 + n div 10 mod 10, 48 + n mod 10]" by simp
  then show ?thesis by (simp only: numeral_2_eq_2)
qed

lemma decimal_2024: "decimal 2024 = str ''2024''"
  by (simp add: decimal.simps str_def)

lemma sample_thread_rendered:
  "join (str [CHR 0x0A]) (map (rendered_line True) (filter (\<lambda>m. trimmed_content m \<noteq> []) sample_thread))
   = str ''[2024-01-15 14:32] alice: a'' @ [10] @ str ''carol: hi there'' @ [10] @ str ''unknown: x''"
  by (simp add: sample_thread_def rendered_line_def trimmed_content_def resolved_author_def
      decimal_2024 strip_def str_def is_space_def digits_2)

text \<open>
  The year of a \<open>datetime\<close> is printed without padding: three digits for the year 999.
\<close>

lemma year_999:
  "ts_str (Datetime 999 1 2 3 4) = str ''999-01-02 03:04''"
  by (simp add: decimal.simps digits_2 str_def)

text \<open>
  A content that holds a newline is rendered on two lines of text, where the docstring
  of \<open>format_for_llm\<close> announces one message per line.
\<close>

lemma format_for_llm_embedded_newline:
  "format_for_llm [two_line_note] False = Inr (str ''alice: a'' @ [10] @ str ''b'') \<and>
   text_lines (str ''alice: a'' @ [10] @ str ''b'') = [str ''alice: a'', str ''b'']"
  by (simp add: two_line_note_def format_for_llm_def or_else_def strip_def str_def is_space_def
      text_lines_def is_line_break_def)

subsection \<open>The lines of the rendered text\<close>

lemma lines_from_append:
  "\<forall>c \<in> set l. \<not> is_line_break c \<Longrightarrow> lines_from cur (l @ rest) = lines_from (cur @ l) rest"
  by (induction l arbitrary: cur) simp_all

lemma newline_is_line_break: "is_line_break 10"
  by (simp add: is_line_break_def)

lemma lines_from_join:
  assumes "ls \<noteq> []" and "\<forall>l \<in> set ls. \<forall>c \<in> set l. \<not> is_line_break c"
  shows "lines_from cur (join (str [CHR 0x0A]) ls) = (cur @ hd ls) # tl ls"
  using assms
proof (induction "str [CHR 0x0A]" ls arbitrary: cur rule: join.induct)
  case 1
  then show ?case by simp
next
  case (2 l)
  then show ?case using lines_from_append [of l cur "[]"] by simp
next
  case (3 l v va)
  have "lines_from cur (l @ str [CHR 0x0A] @ join (str [CHR 0x0A]) (v # va)) =
        lines_from (cur @ l) (str [CHR 0x0A] @ join (str [CHR 0x0A]) (v # va))"
    using "3.prems"(2) by (intro lines_from_append) simp
  also have "\<dots> = (cur @ l) # lines_from [] (join (str [CHR 0x0A]) (v # va))"
    by (simp add: str_def newline_is_line_break)
  also have "lines_from [] (join (str [CHR 0x0A]) (v # va)) = ([] @ hd (v # va)) # tl (v # va)"
    using "3.prems"(2) by (intro "3.hyps") simp_all
  finally show ?case by simp
qed

lemma text_lines_join:
  assumes "\<forall>l \<in> set ls. l \<noteq> [] \<and> (\<forall>c \<in> set l. \<not> is_line_break c)"
  shows "text_lines (join (str [CHR 0x0A]) ls) = ls"
proof (cases ls)
  case Nil
  then show ?thesis by (simp add: text_lines_def)
next
  case (Cons l rest)
  then have "ls \<noteq> []" by simp
  then have "last ls \<in> set ls" by (rule last_in_set)
  then have "last ls \<noteq> []" using assms by blast
  note \<open>ls \<noteq> []\<close> this
  then have ne: "join (str [CHR 0x0A]) ls \<noteq> []" by (rule join_nonempty)
  have "lines_from [] (join (str [CHR 0x0A]) ls) = ([] @ hd ls) # tl ls"
    using \<open>ls \<noteq> []\<close> assms by (intro lines_from_join) simp_all
  then show ?thesis using ne Cons by (simp add: text_lines_def)
qed

lemma digit_no_break: "d < 10 \<Longrightarrow> \<not> is_line_break (48 + d)"
  by (simp add: is_line_break_def)

lemma digits_no_break: "c \<in> set (digits k n) \<Longrightarrow> \<not> is_line_break c"
proof (induction k n rule: digits.induct)
  case (1 n)
  then show ?case by simp
next
  case (2 k n)
  have "\<not> is_line_break (48 + n mod 10)" by (rule digit_no_break) simp
  then show ?case using 2 by auto
qed

lemma decimal_no_break: "c \<in> set (decimal n) \<Longrightarrow> \<not> is_line_break c"
proof (induction n rule: decimal.induct)
  case (1 n)
  have d: "\<not> is_line_break (48 + n mod 10)" by (rule digit_no_break) simp
  show ?case
  proof (cases "n < 10")
    case True
    then show ?thesis using 1(2) d by (simp add: decimal.simps [of n])
  next
    case False
    then show ?thesis using 1 d by (auto simp add: decimal.simps [of n])
  qed
qed

lemma stamp_no_break:
  assumes "case ts of Some (TsText s) \<Rightarrow> \<forall>c \<in> set s. \<not> is_line_break c | _ \<Rightarrow> True"
    and "stamp ts = Some t" and "c \<in> set t"
  shows "\<not> is_line_break c"
proof (cases ts)
  case None
  then show ?thesis using assms by simp
next
  case (Some v)
  show ?thesis
  proof (cases v)
    case (Datetime y mo d h mi)
    have lit: "\<not> is_line_break 45" "\<not> is_line_break 32" "\<not> is_line_break 58"
      by (simp_all add: is_line_break_def)
    show ?thesis
      using assms(2,3) Some Datetime lit digits_no_break decimal_no_break
      by (auto simp add: str_def)
  next
    case (TsText s)
    then show ?thesis using assms Some by (auto split: if_splits)
  qed
qed

lemma rendered_line_no_break:
  assumes "on_one_line m" and "c \<in> set (rendered_line inc m)"
  shows "\<not> is_line_break c"
proof -
  have lit: "\<not> is_line_break 91" "\<not> is_line_break 93" "\<not> is_line_break 32" "\<not> is_line_break 58"
    by (simp_all add: is_line_break_def)
  have a: "\<forall>c \<in> set (resolved_author m). \<not> is_line_break c"
    and t: "\<forall>c \<in> set (trimmed_content m). \<not> is_line_break c"
    and s: "case created_at m of Some (TsText s) \<Rightarrow> \<forall>c \<in> set s. \<not> is_line_break c | _ \<Rightarrow> True"
    using assms(1) by (simp_all add: on_one_line_def)
  show ?thesis
  proof (cases "if inc then stamp (created_at m) else None")
    case None
    then show ?thesis using assms(2) a t lit by (auto simp add: rendered_line_def str_def)
  next
    case (Some ts)
    then have st: "stamp (created_at m) = Some ts" by (simp split: if_splits)
    have "\<forall>c \<in> set ts. \<not> is_line_break c" using stamp_no_break [OF s st] by blast
    then show ?thesis using assms(2) a t lit Some by (auto simp add: rendered_line_def str_def)
  qed
qed

lemma sample_thread_on_one_line: "\<forall>m \<in> set sample_thread. on_one_line m"
  by (simp add: sample_thread_def on_one_line_def trimmed_content_def resolved_author_def
      strip_def str_def is_space_def is_line_break_def)

section \<open>The claim on the renderer\<close>

text \<open>
  C6, rendering. A record whose display name is the empty string and whose secondary
  username is \<open>bob\<close> is rendered under the name \<open>bob\<close>: the source falls back with
  \<open>or\<close>, which skips a display name that is there but empty, where a fall-back for an
  absent field only would render the line \<open>: hi\<close>.
\<close>

theorem format_for_llm_empty_display_name:
  "author unnamed_reply = Some [] \<and>
   format_for_llm [unnamed_reply] False = Inr (str ''bob: hi'') \<and>
   format_for_llm [unnamed_reply] False \<noteq> Inr (str '': hi'')"
  by (simp add: unnamed_reply_def format_for_llm_def or_else_def strip_def str_def is_space_def)

text \<open>
  C6 as the code has it. For every list of records whose trimmed contents, authors and
  textual timestamps hold no line-break character, and for every flag,
  \<open>format_for_llm\<close> returns the rendered lines joined by single newlines, and the text
  returned does not end with a newline: the lines of the text returned are exactly the
  lines of the records whose trimmed content is non-empty, one line per record, in
  order; the author is the display name, the secondary username if the display name is
  absent or empty, \<open>unknown\<close> if both are; the line reads
  \<open>[YYYY-MM-DD HH:MM] author: content\<close>, with the trimmed content and the year in
  decimal, when timestamps are included and the record has a \<open>datetime\<close> (a timestamp
  stored as a non-empty text is shown as it is), and \<open>author: content\<close> otherwise, also
  when the timestamp is asked for and absent or empty.
\<close>

theorem format_for_llm_lines:
  assumes "\<forall>m \<in> set messages. on_one_line m"
  shows "\<exists>out. format_for_llm messages include_timestamps = Inr out \<and>
     out = join (str [CHR 0x0A])
             (map (rendered_line include_timestamps)
                (filter (\<lambda>m. trimmed_content m \<noteq> []) messages)) \<and>
     text_lines out =
       map (rendered_line include_timestamps)
         (filter (\<lambda>m. trimmed_content m \<noteq> []) messages) \<and>
     (out = [] \<or> last out \<noteq> 10)"
proof -
  let ?ls = "map (rendered_line include_timestamps)
               (filter (\<lambda>m. trimmed_content m \<noteq> []) messages)"
  have "\<forall>l \<in> set ?ls. l \<noteq> [] \<and> (\<forall>c \<in> set l. \<not> is_line_break c)"
    using assms rendered_line_nonempty rendered_line_no_break by auto
  then have "text_lines (join (str [CHR 0x0A]) ?ls) = ?ls" by (rule text_lines_join)
  moreover have "format_for_llm messages include_timestamps = Inr (join (str [CHR 0x0A]) ?ls)"
    by (simp add: format_for_llm_rendered rendered_def)
  moreover have "join (str [CHR 0x0A]) ?ls = [] \<or> last (join (str [CHR 0x0A]) ?ls) \<noteq> 10"
    using rendered_no_trailing_newline [of messages include_timestamps] by (simp add: rendered_def)
  ultimately show ?thesis by simp
qed

theorem format_for_llm_lines_witness:
  "format_for_llm sample_thread True =
     Inr (str ''[2024-01-15 14:32] alice: a'' @ [10] @ str ''carol: hi there'' @ [10] @
          str ''unknown: x'') \<and>
   text_lines (str ''[2024-01-15 14:32] alice: a'' @ [10] @ str ''carol: hi there'' @ [10] @
          str ''unknown: x'') =
     [str ''[2024-01-15 14:32] alice: a'', str ''carol: hi there'', str ''unknown: x'']"
proof -
  obtain out where out: "format_for_llm sample_thread True = Inr out"
    "out = join (str [CHR 0x0A])
             (map (rendered_line True) (filter (\<lambda>m. trimmed_content m \<noteq> []) sample_thread))"
    using format_for_llm_lines [OF sample_thread_on_one_line, of True] by blast
  have "out = str ''[2024-01-15 14:32] alice: a'' @ [10] @ str ''carol: hi there'' @ [10] @
          str ''unknown: x''"
    using out(2) by (simp only: sample_thread_rendered)
  moreover have "text_lines (str ''[2024-01-15 14:32] alice: a'' @ [10] @ str ''carol: hi there'' @ [10] @
          str ''unknown: x'') =
     [str ''[2024-01-15 14:32] alice: a'', str ''carol: hi there'', str ''unknown: x'']"
    by (simp add: text_lines_def str_def is_line_break_def)
  ultimately show ?thesis using out(1) by simp
qed


end
